theory Spec2Isabelle
  imports Main "HOL-Library.AList"
begin

section \<open>The graph model: \<open>networkx.DiGraph\<close> as a dictionary of dictionaries\<close>

text \<open>
  \<open>belman.py\<close> builds an \<open>nx.DiGraph\<close> and reads it through \<open>graph.nodes\<close> and
  \<open>graph.edges(data=True)\<close>. A \<open>DiGraph\<close> keeps its successors in an insertion-ordered
  dictionary from node to an insertion-ordered dictionary from neighbour to edge data, so
  the model is an association list of association lists; the edge data is the single
  attribute \<open>weight\<close>. Weights are exact numbers of an ordered ring (\<open>int\<close>, \<open>rat\<close>,
  \<open>real\<close>): rounding, NaN and infinite weights of floating point are not modelled.
\<close>

type_synonym ('n, 'w) digraph = "('n \<times> ('n \<times> 'w) list) list"

text \<open>\<open>graph.nodes\<close> and \<open>graph.edges(data=True)\<close>, in the order iteration yields them.\<close>

definition nodes :: "('n, 'w) digraph \<Rightarrow> 'n list" where
  "nodes g = map fst g"

definition edges :: "('n, 'w) digraph \<Rightarrow> ('n \<times> 'n \<times> 'w) list" where
  "edges g = concat (map (\<lambda>(u, nbrs). map (\<lambda>(v, w). (u, v, w)) nbrs) g)"

text \<open>
  \<open>graph.add_edge(source, target, weight=weight)\<close> (line 70): either endpoint that is
  not yet a node is added at the end, with no successors; then the entry of \<open>target\<close>
  among the successors of \<open>source\<close> gets the weight, in place if the edge is already
  there and at the end otherwise.
\<close>

definition add_node :: "'n \<Rightarrow> ('n, 'w) digraph \<Rightarrow> ('n, 'w) digraph" where
  "add_node u g = (if u \<in> set (nodes g) then g else g @ [(u, [])])"

definition add_edge :: "'n \<Rightarrow> 'n \<Rightarrow> 'w \<Rightarrow> ('n, 'w) digraph \<Rightarrow> ('n, 'w) digraph" where
  "add_edge u v w g = AList.map_entry u (AList.update v w) (add_node v (add_node u g))"

text \<open>
  What holds of every \<open>DiGraph\<close>: the keys of a dictionary are distinct, and both ends
  of an edge are nodes.
\<close>

definition wf_graph :: "('n, 'w) digraph \<Rightarrow> bool" where
  "wf_graph g \<longleftrightarrow>
     distinct (nodes g) \<and>
     (\<forall>(u, nbrs) \<in> set g. distinct (map fst nbrs) \<and> (\<forall>(v, w) \<in> set nbrs. v \<in> set (nodes g)))"

section \<open>The loader\<close>

text \<open>
  \<open>read_graph_from_excel\<close>: the data frame is its column names and its rows; a row
  carries the three required cells. A frame without one of the required columns raises
  \<open>ValueError\<close>; otherwise every row is one \<open>add_edge\<close>, in row order.
\<close>

datatype error = KeyError | ValueError

record ('n, 'w) row =
  Source :: 'n
  Target :: 'n
  Weight :: 'w

definition required_columns :: "string list" where
  "required_columns = [''Source'', ''Target'', ''Weight'']"

definition load_rows :: "('n, 'w) row list \<Rightarrow> ('n, 'w) digraph" where
  "load_rows rs = fold (\<lambda>r g. add_edge (Source r) (Target r) (Weight r) g) rs []"

definition read_graph_from_excel ::
    "string list \<Rightarrow> ('n, 'w) row list \<Rightarrow> error + ('n, 'w) digraph" where
  "read_graph_from_excel columns rs =
     (if \<not> set required_columns \<subseteq> set columns then Inl ValueError
      else Inr (load_rows rs))"

section \<open>The engine\<close>

text \<open>
  A distance is a number or \<open>float("inf")\<close>. \<open>ext_add\<close> is \<open>distances[u] + weight\<close>
  and \<open>ext_less\<close> is \<open><\<close> on such values.
\<close>

datatype 'w ext = Num 'w | PosInf

fun ext_add :: "'w::plus ext \<Rightarrow> 'w \<Rightarrow> 'w ext" where
  "ext_add (Num a) w = Num (a + w)"
| "ext_add PosInf w = PosInf"

fun ext_less :: "'w::ord ext \<Rightarrow> 'w ext \<Rightarrow> bool" where
  "ext_less (Num a) (Num b) \<longleftrightarrow> a < b"
| "ext_less (Num a) PosInf \<longleftrightarrow> True"
| "ext_less PosInf b \<longleftrightarrow> False"

type_synonym ('n, 'w) dists = "'n \<rightharpoonup> 'w ext"
type_synonym 'n preds = "'n \<rightharpoonup> 'n option"
type_synonym ('n, 'w) state = "('n, 'w) dists \<times> 'n preds"

text \<open>
  One execution of the body of the inner relaxation loop (lines 117 to 120). A dictionary
  read of an absent key raises \<open>KeyError\<close>; a dictionary write adds the key.
\<close>

definition relax_edge ::
    "('n \<times> 'n \<times> 'w::{plus,ord}) \<Rightarrow> ('n, 'w) state \<Rightarrow> error + ('n, 'w) state" where
  "relax_edge e st =
     (case e of (u, v, weight) \<Rightarrow> case st of (distances, predecessors) \<Rightarrow>
        (case distances u of
           None \<Rightarrow> Inl KeyError
         | Some du \<Rightarrow>
             (case distances v of
                None \<Rightarrow> Inl KeyError
              | Some dv \<Rightarrow>
                  if ext_less (ext_add du weight) dv
                  then Inr (distances(v \<mapsto> ext_add du weight), predecessors(v \<mapsto> Some u))
                  else Inr (distances, predecessors))))"

text \<open>The inner loop over \<open>graph.edges(data=True)\<close> (line 116).\<close>

fun relax_pass ::
    "('n \<times> 'n \<times> 'w::{plus,ord}) list \<Rightarrow> ('n, 'w) state \<Rightarrow> error + ('n, 'w) state" where
  "relax_pass [] st = Inr st"
| "relax_pass (e # es) st =
     (case relax_edge e st of Inl err \<Rightarrow> Inl err | Inr st' \<Rightarrow> relax_pass es st')"

text \<open>The outer loop \<open>for _ in range(len(graph.nodes) - 1)\<close> (line 115), by its number of rounds.\<close>

fun relax_rounds ::
    "nat \<Rightarrow> ('n \<times> 'n \<times> 'w::{plus,ord}) list \<Rightarrow> ('n, 'w) state \<Rightarrow> error + ('n, 'w) state" where
  "relax_rounds 0 es st = Inr st"
| "relax_rounds (Suc k) es st =
     (case relax_pass es st of Inl err \<Rightarrow> Inl err | Inr st' \<Rightarrow> relax_rounds k es st')"

text \<open>The negative-cycle check (lines 123 to 126): the first improving edge raises \<open>ValueError\<close>.\<close>

fun check_pass ::
    "('n \<times> 'n \<times> 'w::{plus,ord}) list \<Rightarrow> ('n, 'w) dists \<Rightarrow> error + unit" where
  "check_pass [] distances = Inr ()"
| "check_pass ((u, v, weight) # es) distances =
     (case distances u of
        None \<Rightarrow> Inl KeyError
      | Some du \<Rightarrow>
          (case distances v of
             None \<Rightarrow> Inl KeyError
           | Some dv \<Rightarrow>
               if ext_less (ext_add du weight) dv then Inl ValueError
               else check_pass es distances))"

text \<open>
  The predecessor walk \<open>while current is not None\<close> (lines 133 to 135). Nothing in the
  loop bounds it, so it is a partial function: \<open>None\<close> is a walk that never ends.
  \<open>path.insert(0, current)\<close> is a cons.
\<close>

partial_function (option) walk_back ::
    "'n preds \<Rightarrow> 'n option \<Rightarrow> 'n list \<Rightarrow> (error + 'n list) option" where
  "walk_back predecessors current path =
     (case current of
        None \<Rightarrow> Some (Inr path)
      | Some c \<Rightarrow>
          (case predecessors c of
             None \<Rightarrow> Some (Inl KeyError)
           | Some nxt \<Rightarrow> walk_back predecessors nxt (c # path)))"

declare walk_back.simps [code]

text \<open>The loop \<open>for node in graph.nodes\<close> that fills \<open>paths\<close> (lines 130 to 137).\<close>

fun build_paths ::
    "'n list \<Rightarrow> ('n, 'w) dists \<Rightarrow> 'n preds \<Rightarrow> ('n \<rightharpoonup> 'n list) \<Rightarrow> (error + ('n \<rightharpoonup> 'n list)) option" where
  "build_paths [] distances predecessors paths = Some (Inr paths)"
| "build_paths (node # ns) distances predecessors paths =
     (case walk_back predecessors (Some node) [] of
        None \<Rightarrow> None
      | Some (Inl err) \<Rightarrow> Some (Inl err)
      | Some (Inr path) \<Rightarrow>
          (case distances node of
             None \<Rightarrow> Some (Inl KeyError)
           | Some dn \<Rightarrow>
               build_paths ns distances predecessors
                 (if dn \<noteq> PosInf then paths(node \<mapsto> path) else paths)))"

text \<open>The state after lines 110 to 112.\<close>

definition init_state :: "('n, 'w::zero) digraph \<Rightarrow> 'n \<Rightarrow> ('n, 'w) state" where
  "init_state graph source =
     ((map_of (map (\<lambda>node. (node, PosInf)) (nodes graph)))(source \<mapsto> Num 0),
      map_of (map (\<lambda>node. (node, None)) (nodes graph)))"

text \<open>
  \<open>bellman_ford\<close>: \<open>None\<close> is a call that does not return, \<open>Some (Inl e)\<close> a call
  that raises, \<open>Some (Inr (distances, paths))\<close> the returned pair.
  \<open>len(graph.nodes) - 1\<close> is \<open>-1\<close> on the empty graph, and \<open>range(-1)\<close> is empty as
  \<open>range(0)\<close> is, so the truncating subtraction gives the number of rounds.
\<close>

definition bellman_ford ::
    "('n, 'w::{zero,plus,ord}) digraph \<Rightarrow> 'n
      \<Rightarrow> (error + (('n, 'w) dists \<times> ('n \<rightharpoonup> 'n list))) option" where
  "bellman_ford graph source =
     (case relax_rounds (length (nodes graph) - 1) (edges graph) (init_state graph source) of
        Inl err \<Rightarrow> Some (Inl err)
      | Inr (distances, predecessors) \<Rightarrow>
          (case check_pass (edges graph) distances of
             Inl err \<Rightarrow> Some (Inl err)
           | Inr _ \<Rightarrow>
               (case build_paths (nodes graph) distances predecessors Map.empty of
                  None \<Rightarrow> None
                | Some (Inl err) \<Rightarrow> Some (Inl err)
                | Some (Inr paths) \<Rightarrow> Some (Inr (distances, paths)))))"

section \<open>Walks, weights and negative cycles\<close>

text \<open>
  A path from \<open>u\<close> to \<open>v\<close> is a sequence of edges of the graph, each starting where the
  one before it ends; it need not be simple. Its weight is the sum of its edge weights. A
  cycle is a path from a node back to itself; a negative cycle has negative weight (so it
  has at least one edge), and it is reachable from the source when a path leads from the
  source to a node on it.
\<close>

fun is_walk :: "('n, 'w) digraph \<Rightarrow> 'n \<Rightarrow> ('n \<times> 'n \<times> 'w) list \<Rightarrow> 'n \<Rightarrow> bool" where
  "is_walk g u [] v \<longleftrightarrow> u = v"
| "is_walk g u (e # es) v \<longleftrightarrow> e \<in> set (edges g) \<and> fst e = u \<and> is_walk g (fst (snd e)) es v"

definition walk_weight :: "('n \<times> 'n \<times> 'w::monoid_add) list \<Rightarrow> 'w" where
  "walk_weight es = sum_list (map (\<lambda>e. snd (snd e)) es)"


definition neg_cycle_reachable :: "('n, 'w::{monoid_add,ord}) digraph \<Rightarrow> 'n \<Rightarrow> bool" where
  "neg_cycle_reachable g s \<longleftrightarrow>
     (\<exists>p c x. is_walk g s p x \<and> is_walk g x c x \<and> walk_weight c < 0)"

text \<open>The sequence of nodes a path visits, and "every consecutive pair is an edge".\<close>

fun linked :: "('n, 'w) digraph \<Rightarrow> 'n list \<Rightarrow> bool" where
  "linked g (x # y # zs) \<longleftrightarrow> (\<exists>w. (x, y, w) \<in> set (edges g)) \<and> linked g (y # zs)"
| "linked g xs \<longleftrightarrow> True"

text \<open>\<open>distances[v]\<close> is a number, at most \<open>x\<close>.\<close>

definition le_at :: "('n, 'w::ord) dists \<Rightarrow> 'n \<Rightarrow> 'w \<Rightarrow> bool" where
  "le_at d v x \<longleftrightarrow> (\<exists>y. d v = Some (Num y) \<and> y \<le> x)"

text \<open>No edge of the list improves a distance: what the check of lines 123 to 126 looks for.\<close>

definition stable :: "('n \<times> 'n \<times> 'w::{plus,ord}) list \<Rightarrow> ('n, 'w) dists \<Rightarrow> bool" where
  "stable es d \<longleftrightarrow>
     (\<forall>(u, v, w) \<in> set es. \<exists>du dv. d u = Some du \<and> d v = Some dv \<and> \<not> ext_less (ext_add du w) dv)"

text \<open>The predecessor links as a relation, from a predecessor to its node.\<close>

definition pred_rel :: "'n preds \<Rightarrow> ('n \<times> 'n) set" where
  "pred_rel p = {(u, v). p v = Some (Some u)}"

text \<open>A list of nodes in which each node is the recorded predecessor of the next.\<close>

fun chain_ok :: "'n preds \<Rightarrow> 'n list \<Rightarrow> bool" where
  "chain_ok p (x # y # zs) \<longleftrightarrow> p y = Some (Some x) \<and> chain_ok p (y # zs)"
| "chain_ok p xs \<longleftrightarrow> True"

text \<open>Every node is a key of both dictionaries: no read of the engine raises \<open>KeyError\<close>.\<close>

definition keys_ok :: "('n, 'w) digraph \<Rightarrow> ('n, 'w) state \<Rightarrow> bool" where
  "keys_ok g st \<longleftrightarrow> set (nodes g) \<subseteq> dom (fst st) \<and> set (nodes g) \<subseteq> dom (snd st)"


text \<open>\<open>covers g s k d\<close>: the distances are at most the weight of every path of at most \<open>k\<close> edges from the source.\<close>

definition covers :: "('n, 'w::{monoid_add,ord}) digraph \<Rightarrow> 'n \<Rightarrow> nat \<Rightarrow> ('n, 'w) dists \<Rightarrow> bool" where
  "covers g s k d \<longleftrightarrow> (\<forall>q v. is_walk g s q v \<and> length q \<le> k \<longrightarrow> le_at d v (walk_weight q))"

text \<open>\<open>sound g s d\<close>: every finite distance is the weight of some path from the source.\<close>

definition sound :: "('n, 'w::monoid_add) digraph \<Rightarrow> 'n \<Rightarrow> ('n, 'w) dists \<Rightarrow> bool" where
  "sound g s d \<longleftrightarrow> (\<forall>v x. d v = Some (Num x) \<longrightarrow> (\<exists>q. is_walk g s q v \<and> walk_weight q = x))"

text \<open>Scenario 1 of the specification: \<open>A\<rightarrow>B (4)\<close>, \<open>A\<rightarrow>C (1)\<close>, \<open>C\<rightarrow>B (1)\<close>, as the loader builds it.\<close>

definition g_abc :: "(string, int) digraph" where
  "g_abc = [(''A'', [(''B'', 4), (''C'', 1)]), (''B'', []), (''C'', [(''B'', 1)])]"

text \<open>Every recorded predecessor link is an edge of the graph that was tight, or better, when it was last looked at.\<close>

definition pred_edges :: "('n, 'w::{plus,ord}) digraph \<Rightarrow> ('n, 'w) dists \<Rightarrow> 'n preds \<Rightarrow> bool" where
  "pred_edges g d p \<longleftrightarrow>
     (\<forall>v u. p v = Some (Some u) \<longrightarrow>
        (\<exists>w x y. (u, v, w) \<in> set (edges g) \<and> d u = Some (Num x) \<and> d v = Some (Num y) \<and> x + w \<le> y))"

text \<open>The invariant of the predecessor dictionary while no negative cycle is reachable: links are edges, only the source has a finite distance and no predecessor, the source keeps distance 0, and the links form no cycle.\<close>

definition pred_inv :: "('n, 'w::{zero,plus,ord}) digraph \<Rightarrow> 'n \<Rightarrow> ('n, 'w) state \<Rightarrow> bool" where
  "pred_inv g s st \<longleftrightarrow>
     (case st of (d, p) \<Rightarrow>
        pred_edges g d p
        \<and> (\<forall>v x. d v = Some (Num x) \<longrightarrow> v = s \<or> (\<exists>u. p v = Some (Some u)))
        \<and> d s = Some (Num 0)
        \<and> (\<forall>u. p s \<noteq> Some (Some u))
        \<and> wf (pred_rel p))"

text \<open>The path the walk of lines 131 to 135 builds for a node, when it builds one.\<close>

definition path_of :: "'n preds \<Rightarrow> 'n \<Rightarrow> 'n list option" where
  "path_of p n = (case walk_back p (Some n) [] of Some (Inr xs) \<Rightarrow> Some xs | _ \<Rightarrow> None)"

text \<open>Scenario 4 of the specification: \<open>A\<rightarrow>B (-1)\<close>, \<open>B\<rightarrow>C (-1)\<close>, \<open>A\<rightarrow>C (5)\<close>.\<close>

definition g_short :: "(string, int) digraph" where
  "g_short = [(''A'', [(''B'', - 1), (''C'', 5)]), (''B'', [(''C'', - 1)]), (''C'', [])]"


text \<open>Scenario 3 of the specification: \<open>A\<rightarrow>B (5)\<close> and an isolated node \<open>C\<close>.\<close>

definition g_iso :: "(string, int) digraph" where
  "g_iso = [(''A'', [(''B'', 5)]), (''B'', []), (''C'', [])]"

text \<open>What a call reports for one node: no return, an error, or the node's entry in the returned \<open>distances\<close>.\<close>

definition reported_distance ::
    "('n, 'w::{zero,plus,ord}) digraph \<Rightarrow> 'n \<Rightarrow> 'n \<Rightarrow> (error + 'w ext option) option" where
  "reported_distance g s n = map_option (map_sum id (\<lambda>r. fst r n)) (bellman_ford g s)"

text \<open>Two rows with the same ordered pair of endpoints.\<close>

definition same_pair :: "('n, 'w) row \<Rightarrow> ('n, 'w) row \<Rightarrow> bool" where
  "same_pair r r' \<longleftrightarrow> Source r = Source r' \<and> Target r = Target r'"

text \<open>The rows of the specification's reading of duplicates: every row carries the minimum weight among the rows with its ordered pair.\<close>

definition min_weight_rows :: "('n, 'w::linorder) row list \<Rightarrow> ('n, 'w) row list" where
  "min_weight_rows rs =
     map (\<lambda>r. r\<lparr>Weight := fold min (map Weight (filter (same_pair r) rs)) (Weight r)\<rparr>) rs"

text \<open>The rows as the loader treats duplicates: every row carries the weight of the last row with its ordered pair.\<close>

definition last_weight_rows :: "('n, 'w) row list \<Rightarrow> ('n, 'w) row list" where
  "last_weight_rows rs = map (\<lambda>r. r\<lparr>Weight := Weight (last (filter (same_pair r) rs))\<rparr>) rs"

text \<open>Overwriting the weight of an edge that is there, and of the rows of one ordered pair.\<close>

definition set_weight :: "'n \<Rightarrow> 'n \<Rightarrow> 'w \<Rightarrow> ('n, 'w) digraph \<Rightarrow> ('n, 'w) digraph" where
  "set_weight u v w g = AList.map_entry u (AList.map_entry v (\<lambda>_. w)) g"

definition override :: "'n \<Rightarrow> 'n \<Rightarrow> 'w \<Rightarrow> ('n, 'w) row \<Rightarrow> ('n, 'w) row" where
  "override u v w r = (if Source r = u \<and> Target r = v then r\<lparr>Weight := w\<rparr> else r)"

text \<open>Two rows for the same ordered pair, the cheaper one first.\<close>

definition dup_rows :: "(string, int) row list" where
  "dup_rows = [\<lparr>Source = ''A'', Target = ''B'', Weight = 1\<rparr>,
               \<lparr>Source = ''A'', Target = ''B'', Weight = 5\<rparr>]"

section \<open>Lemmas\<close>


subsection \<open>Edges and nodes\<close>

lemma edges_iff: "(u, v, w) \<in> set (edges g) \<longleftrightarrow> (\<exists>nbrs. (u, nbrs) \<in> set g \<and> (v, w) \<in> set nbrs)"
  by (auto simp: edges_def)

lemma edge_nodes:
  assumes "wf_graph g" "(u, v, w) \<in> set (edges g)"
  shows "u \<in> set (nodes g)" "v \<in> set (nodes g)"
proof -
  from assms(2) obtain nbrs where n: "(u, nbrs) \<in> set g" "(v, w) \<in> set nbrs"
    by (auto simp: edges_iff)
  from n(1) show "u \<in> set (nodes g)" by (force simp: nodes_def)
  from assms(1) n show "v \<in> set (nodes g)" by (fastforce simp: wf_graph_def)
qed

subsection \<open>Walks\<close>

lemma is_walk_append:
  "is_walk g a (p @ q) b \<longleftrightarrow> (\<exists>m. is_walk g a p m \<and> is_walk g m q b)"
  by (induction p arbitrary: a) auto

lemma walk_weight_Nil [simp]: "walk_weight [] = 0"
  by (simp add: walk_weight_def)

lemma walk_weight_Cons [simp]: "walk_weight (e # es) = snd (snd e) + walk_weight es"
  by (simp add: walk_weight_def)

lemma walk_weight_append [simp]: "walk_weight (p @ q) = walk_weight p + walk_weight q"
  by (simp add: walk_weight_def)

lemma is_walk_snoc:
  "is_walk g a (q @ [(u, v, w)]) b \<longleftrightarrow> is_walk g a q u \<and> (u, v, w) \<in> set (edges g) \<and> v = b"
  by (auto simp: is_walk_append)

lemma walk_in_nodes:
  "wf_graph g \<Longrightarrow> is_walk g a q b \<Longrightarrow> a \<in> set (nodes g) \<Longrightarrow> b \<in> set (nodes g)"
proof (induction q arbitrary: a)
  case Nil then show ?case by simp
next
  case (Cons e q)
  obtain u v w where e: "e = (u, v, w)" by (cases e)
  with Cons show ?case by (auto dest: edge_nodes)
qed

lemma walk_from_outside:
  "wf_graph g \<Longrightarrow> is_walk g a q b \<Longrightarrow> a \<notin> set (nodes g) \<Longrightarrow> q = []"
  by (cases q) (auto dest: edge_nodes)

subsection \<open>Loop rules\<close>

lemma relax_pass_rule:
  assumes "relax_pass es st = Inr st'" "I st"
    and "\<And>e s s'. e \<in> set es \<Longrightarrow> I s \<Longrightarrow> relax_edge e s = Inr s' \<Longrightarrow> I s'"
  shows "I st'"
  using assms
proof (induction es arbitrary: st)
  case Nil then show ?case by simp
next
  case (Cons e es)
  from Cons.prems(1) obtain s1 where s1: "relax_edge e st = Inr s1" "relax_pass es s1 = Inr st'"
    by (auto split: sum.splits)
  have "I s1" using Cons.prems(3)[of e st s1] Cons.prems(2) s1(1) by simp
  show ?case
  proof (rule Cons.IH[OF s1(2) \<open>I s1\<close>])
    fix e' s s' assume "e' \<in> set es" "I s" "relax_edge e' s = Inr s'"
    then show "I s'" using Cons.prems(3)[of e' s s'] by simp
  qed
qed

lemma relax_rounds_rule:
  assumes "relax_rounds k es st = Inr st'" "I st"
    and "\<And>e s s'. e \<in> set es \<Longrightarrow> I s \<Longrightarrow> relax_edge e s = Inr s' \<Longrightarrow> I s'"
  shows "I st'"
  using assms
proof (induction k arbitrary: st)
  case 0 then show ?case by simp
next
  case (Suc k)
  from Suc.prems(1) obtain s1 where s1: "relax_pass es st = Inr s1" "relax_rounds k es s1 = Inr st'"
    by (auto split: sum.splits)
  have "I s1" by (rule relax_pass_rule[where I=I, OF s1(1) Suc.prems(2)]) (rule Suc.prems(3))
  show ?case by (rule Suc.IH[OF s1(2) \<open>I s1\<close>]) (rule Suc.prems(3))
qed

text \<open>A relaxation step, spelled out.\<close>

lemma relax_edge_cases:
  assumes "relax_edge (u, v, w) (d, p) = Inr (d', p')"
  obtains (improve) a where "d u = Some (Num a)" "d v \<noteq> None"
      "ext_less (Num (a + w)) (the (d v))" "d' = d(v \<mapsto> Num (a + w))" "p' = p(v \<mapsto> Some u)"
  | (keep) du dv where "d u = Some du" "d v = Some dv" "\<not> ext_less (ext_add du w) dv" "d' = d" "p' = p"
proof -
  from assms obtain du dv where dd: "d u = Some du" "d v = Some dv"
    by (auto simp: relax_edge_def split: option.splits)
  show thesis
  proof (cases "ext_less (ext_add du w) dv")
    case True
    then obtain a where a: "du = Num a" by (cases du) auto
    from assms dd True have "d' = d(v \<mapsto> ext_add du w)" "p' = p(v \<mapsto> Some u)"
      by (simp_all add: relax_edge_def)
    with a True dd show ?thesis by (intro improve[of a]) simp_all
  next
    case False
    from assms dd False have "d' = d" "p' = p" by (simp_all add: relax_edge_def)
    with dd False show ?thesis by (intro keep[of du dv]) simp_all
  qed
qed

lemma ext_less_Num: "ext_less (Num a) b \<longleftrightarrow> (case b of Num c \<Rightarrow> a < c | PosInf \<Rightarrow> True)"
  by (cases b) auto

lemma not_ext_less_Num: "\<not> ext_less (Num a) b \<longleftrightarrow> (\<exists>c. b = Num c \<and> c \<le> (a::'w::linorder))"
  by (cases b) auto

subsection \<open>No KeyError\<close>


lemma keys_ok_init: "keys_ok g (init_state g s)"
  by (auto simp: keys_ok_def init_state_def dom_map_of_conv_image_fst image_image)

lemma relax_edge_keys:
  "keys_ok g st \<Longrightarrow> relax_edge e st = Inr st' \<Longrightarrow> keys_ok g st'"
  by (cases e; cases st) (auto simp: keys_ok_def relax_edge_def split: option.splits if_splits)

lemma relax_edge_total:
  assumes "keys_ok g st" "fst e \<in> set (nodes g)" "fst (snd e) \<in> set (nodes g)"
  shows "\<exists>st'. relax_edge e st = Inr st'"
proof -
  obtain u v w d p where [simp]: "e = (u, v, w)" "st = (d, p)" by (cases e; cases st) auto
  from assms have "u \<in> dom d" "v \<in> dom d" by (auto simp: keys_ok_def)
  then obtain du dv where "d u = Some du" "d v = Some dv" by blast
  then show ?thesis by (simp add: relax_edge_def)
qed

lemma relax_pass_total:
  assumes "keys_ok g st" "\<forall>e\<in>set es. fst e \<in> set (nodes g) \<and> fst (snd e) \<in> set (nodes g)"
  shows "\<exists>st'. relax_pass es st = Inr st' \<and> keys_ok g st'"
  using assms
proof (induction es arbitrary: st)
  case Nil then show ?case by simp
next
  case (Cons e es)
  then obtain s1 where s1: "relax_edge e st = Inr s1" using relax_edge_total[of g st e] by auto
  with Cons.prems have "keys_ok g s1" by (auto dest: relax_edge_keys)
  with Cons.IH[of s1] Cons.prems s1 show ?case by auto
qed

lemma relax_rounds_total:
  assumes "keys_ok g st" "\<forall>e\<in>set es. fst e \<in> set (nodes g) \<and> fst (snd e) \<in> set (nodes g)"
  shows "\<exists>st'. relax_rounds k es st = Inr st' \<and> keys_ok g st'"
  using assms
proof (induction k arbitrary: st)
  case 0 then show ?case by simp
next
  case (Suc k)
  from relax_pass_total[OF Suc.prems] obtain s1 where "relax_pass es st = Inr s1" "keys_ok g s1"
    by auto
  with Suc.IH[of s1] Suc.prems show ?case by auto
qed

lemma wf_edges_ok:
  "wf_graph g \<Longrightarrow> \<forall>e\<in>set (edges g). fst e \<in> set (nodes g) \<and> fst (snd e) \<in> set (nodes g)"
  by (auto dest: edge_nodes)

subsection \<open>The check\<close>

lemma check_pass_Inr_iff: "check_pass es d = Inr () \<longleftrightarrow> stable es d"
  by (induction es d rule: check_pass.induct) (auto simp: stable_def split: option.splits)


lemma relax_pass_stable: "stable es d \<Longrightarrow> relax_pass es (d, p) = Inr (d, p)"
  by (induction es) (auto simp: stable_def relax_edge_def)

text \<open>A stable distance map is a potential: it bounds every path.\<close>

lemma stable_walk:
  fixes g :: "('n, 'w::linordered_idom) digraph"
  assumes "stable (edges g) d"
  shows "is_walk g a q b \<Longrightarrow> d a = Some (Num x) \<Longrightarrow> le_at d b (x + walk_weight q)"
proof (induction q arbitrary: a x)
  case Nil then show ?case by (simp add: le_at_def)
next
  case (Cons e q)
  obtain u v w where e: "e = (u, v, w)" by (cases e)
  with Cons.prems have uv: "u = a" "(a, v, w) \<in> set (edges g)" "is_walk g v q b" by auto
  from assms uv(2) Cons.prems(2) obtain y where y: "d v = Some (Num y)" "y \<le> x + w"
    by (fastforce simp: stable_def not_ext_less_Num)
  from Cons.IH[OF uv(3) y(1)] obtain z where "d b = Some (Num z)" "z \<le> y + walk_weight q"
    by (auto simp: le_at_def)
  with y e show ?case by (auto simp: le_at_def)
qed

subsection \<open>Distances only decrease\<close>

lemma relax_edge_mono:
  fixes st :: "('n, 'w::linordered_idom) state"
  assumes "relax_edge e st = Inr st'" "le_at (fst st) v x"
  shows "le_at (fst st') v x"
proof -
  obtain a b w d p d' p' where [simp]: "e = (a, b, w)" "st = (d, p)" "st' = (d', p')"
    by (cases e; cases st; cases st') auto
  from assms(1) have r: "relax_edge (a, b, w) (d, p) = Inr (d', p')" by simp
  from assms(2) obtain y where y: "d v = Some (Num y)" "y \<le> x" by (auto simp: le_at_def)
  from r show ?thesis
  proof (cases rule: relax_edge_cases)
    case (improve c)
    show ?thesis
    proof (cases "v = b")
      case True
      with improve y have "c + w < y" by simp
      with True improve y show ?thesis by (simp add: le_at_def)
    next
      case False
      with improve y show ?thesis by (simp add: le_at_def)
    qed
  next
    case (keep du dv)
    with y show ?thesis by (simp add: le_at_def)
  qed
qed

lemma map_of_const: "map_of (map (\<lambda>n. (n, c)) xs) v = (if v \<in> set xs then Some c else None)"
  by (induction xs) auto

lemma init_dist:
  "fst (init_state g s) v =
     (if v = s then Some (Num 0) else if v \<in> set (nodes g) then Some PosInf else None)"
  by (simp add: init_state_def map_of_const)

lemma init_pred: "snd (init_state g s) v = (if v \<in> set (nodes g) then Some None else None)"
  by (simp add: init_state_def map_of_const)

lemma rounds_source_le0:
  fixes g :: "('n, 'w::linordered_idom) digraph"
  assumes "relax_rounds k es (init_state g s) = Inr st"
  shows "le_at (fst st) s 0"
proof (rule relax_rounds_rule[where I = "\<lambda>st. le_at (fst st) s 0", OF assms])
  show "le_at (fst (init_state g s)) s 0" by (simp add: init_dist le_at_def)
next
  fix e and s1 s2 :: "('n, 'w) state"
  assume "le_at (fst s1) s 0" "relax_edge e s1 = Inr s2"
  then show "le_at (fst s2) s 0" by (rule relax_edge_mono[rotated])
qed

lemma stable_no_neg_cycle:
  fixes g :: "('n, 'w::linordered_idom) digraph"
  assumes "stable (edges g) d" "le_at d s 0"
  shows "\<not> neg_cycle_reachable g s"
proof
  assume "neg_cycle_reachable g s"
  then obtain p c x where pc: "is_walk g s p x" "is_walk g x c x" "walk_weight c < 0"
    by (auto simp: neg_cycle_reachable_def)
  from assms(2) obtain a where a: "d s = Some (Num a)" by (auto simp: le_at_def)
  from stable_walk[OF assms(1) pc(1) a] obtain y where y: "d x = Some (Num y)"
    by (auto simp: le_at_def)
  from stable_walk[OF assms(1) pc(2) y] y have "y \<le> y + walk_weight c"
    by (auto simp: le_at_def)
  with pc(3) show False by simp
qed

lemma keys_ok_edges:
  assumes "wf_graph g" "keys_ok g st"
  shows "\<forall>e\<in>set (edges g). fst e \<in> dom (fst st) \<and> fst (snd e) \<in> dom (fst st)"
  using wf_edges_ok[OF assms(1)] assms(2) by (auto simp: keys_ok_def)





subsection \<open>Relaxation rounds cover longer and longer paths\<close>

lemma relax_edge_target:
  fixes st :: "('n, 'w::linordered_idom) state"
  assumes "relax_edge (u, v, w) st = Inr st'" "le_at (fst st) u x"
  shows "le_at (fst st') v (x + w)"
proof -
  obtain d p d' p' where [simp]: "st = (d, p)" "st' = (d', p')" by (cases st; cases st') auto
  from assms(1) have r: "relax_edge (u, v, w) (d, p) = Inr (d', p')" by simp
  from assms(2) obtain y where y: "d u = Some (Num y)" "y \<le> x" by (auto simp: le_at_def)
  from r show ?thesis
  proof (cases rule: relax_edge_cases)
    case (improve c)
    with y show ?thesis by (simp add: le_at_def)
  next
    case (keep du dv)
    with y obtain z where "dv = Num z" "z \<le> y + w" by (auto simp: not_ext_less_Num)
    with keep y show ?thesis by (simp add: le_at_def)
  qed
qed

lemma relax_pass_mono:
  fixes st :: "('n, 'w::linordered_idom) state"
  assumes "relax_pass es st = Inr st'" "le_at (fst st) v x"
  shows "le_at (fst st') v x"
proof (rule relax_pass_rule[where I = "\<lambda>st. le_at (fst st) v x", OF assms])
  fix e and s1 s2 :: "('n, 'w) state"
  assume "le_at (fst s1) v x" "relax_edge e s1 = Inr s2"
  then show "le_at (fst s2) v x" by (rule relax_edge_mono[rotated])
qed

lemma relax_pass_edge:
  fixes st :: "('n, 'w::linordered_idom) state"
  assumes "relax_pass es st = Inr st'" "(u, v, w) \<in> set es" "le_at (fst st) u x"
  shows "le_at (fst st') v (x + w)"
  using assms
proof (induction es arbitrary: st)
  case Nil then show ?case by simp
next
  case (Cons e es)
  from Cons.prems(1) obtain s1 where s1: "relax_edge e st = Inr s1" "relax_pass es s1 = Inr st'"
    by (auto split: sum.splits)
  show ?case
  proof (cases "e = (u, v, w)")
    case True
    with s1(1) Cons.prems(3) have "le_at (fst s1) v (x + w)" by (auto dest: relax_edge_target)
    with s1(2) show ?thesis by (rule relax_pass_mono)
  next
    case False
    with Cons.prems(2) have "(u, v, w) \<in> set es" by simp
    moreover from s1(1) Cons.prems(3) have "le_at (fst s1) u x" by (rule relax_edge_mono)
    ultimately show ?thesis using Cons.IH[OF s1(2)] by blast
  qed
qed

lemma covers_init:
  fixes g :: "('n, 'w::linordered_idom) digraph"
  shows "covers g s 0 (fst (init_state g s))"
  by (auto simp: covers_def init_dist le_at_def)

lemma pass_covers:
  fixes g :: "('n, 'w::linordered_idom) digraph"
  assumes "covers g s k (fst st)" "relax_pass (edges g) st = Inr st'"
  shows "covers g s (Suc k) (fst st')"
  unfolding covers_def
proof (intro allI impI)
  fix q v assume qv: "is_walk g s q v \<and> length q \<le> Suc k"
  show "le_at (fst st') v (walk_weight q)"
  proof (cases "length q \<le> k")
    case True
    with qv assms(1) have "le_at (fst st) v (walk_weight q)" by (auto simp: covers_def)
    with assms(2) show ?thesis by (rule relax_pass_mono)
  next
    case False
    with qv have "q \<noteq> []" by auto
    then obtain q' e where q: "q = q' @ [e]" by (cases q rule: rev_cases) auto
    obtain a b w where e: "e = (a, b, w)" by (cases e)
    from qv q e have w: "is_walk g s q' a" "(a, b, w) \<in> set (edges g)" "b = v" "length q' \<le> k"
      by (auto simp: is_walk_snoc)
    with assms(1) have "le_at (fst st) a (walk_weight q')" by (auto simp: covers_def)
    from relax_pass_edge[OF assms(2) w(2) this] w(3) q e show ?thesis by simp
  qed
qed

lemma rounds_covers:
  fixes g :: "('n, 'w::linordered_idom) digraph"
  assumes "covers g s j (fst st)" "relax_rounds k (edges g) st = Inr st'"
  shows "covers g s (j + k) (fst st')"
  using assms
proof (induction k arbitrary: j st)
  case 0 then show ?case by simp
next
  case (Suc k)
  from Suc.prems(2) obtain s1 where
    s1: "relax_pass (edges g) st = Inr s1" "relax_rounds k (edges g) s1 = Inr st'"
    by (auto split: sum.splits)
  from pass_covers[OF Suc.prems(1) s1(1)] Suc.IH[OF _ s1(2), of "Suc j"] show ?case by simp
qed

subsection \<open>Every finite distance is the weight of a path\<close>

lemma sound_init:
  fixes g :: "('n, 'w::linordered_idom) digraph"
  shows "sound g s (fst (init_state g s))"
  unfolding sound_def
proof (intro allI impI)
  fix v and x :: 'w
  assume "fst (init_state g s) v = Some (Num x)"
  then have "v = s" "x = 0" by (auto simp: init_dist split: if_splits)
  then have "is_walk g s [] v \<and> walk_weight ([] :: ('n \<times> 'n \<times> 'w) list) = x" by simp
  then show "\<exists>q. is_walk g s q v \<and> walk_weight q = x" by blast
qed

lemma relax_edge_sound:
  fixes g :: "('n, 'w::linordered_idom) digraph"
  assumes "sound g s (fst st)" "relax_edge e st = Inr st'" "e \<in> set (edges g)"
  shows "sound g s (fst st')"
proof -
  obtain a b w d p d' p' where [simp]: "e = (a, b, w)" "st = (d, p)" "st' = (d', p')"
    by (cases e; cases st; cases st') auto
  from assms(2) have r: "relax_edge (a, b, w) (d, p) = Inr (d', p')" by simp
  from r show ?thesis
  proof (cases rule: relax_edge_cases)
    case (improve c)
    from assms(1) improve(1) obtain q where q: "is_walk g s q a" "walk_weight q = c"
      by (auto simp: sound_def)
    with assms(3) have "is_walk g s (q @ [(a, b, w)]) b \<and> walk_weight (q @ [(a, b, w)]) = c + w"
      by (simp add: is_walk_snoc)
    then have "\<exists>q. is_walk g s q b \<and> walk_weight q = c + w" by blast
    with assms(1) improve(4) show ?thesis by (auto simp: sound_def)
  next
    case (keep du dv)
    with assms(1) show ?thesis by simp
  qed
qed

lemma rounds_sound:
  fixes g :: "('n, 'w::linordered_idom) digraph"
  assumes "relax_rounds k (edges g) (init_state g s) = Inr st"
  shows "sound g s (fst st)"
proof (rule relax_rounds_rule[where I = "\<lambda>st. sound g s (fst st)", OF assms sound_init])
  fix e and s1 s2 :: "('n, 'w) state"
  assume "e \<in> set (edges g)" "sound g s (fst s1)" "relax_edge e s1 = Inr s2"
  then show "sound g s (fst s2)" by (auto intro: relax_edge_sound)
qed

subsection \<open>Cutting cycles out of long paths\<close>

lemma walk_split:
  assumes "is_walk g a q b" "a # map (\<lambda>e. fst (snd e)) q = xs @ y # ys"
  shows "\<exists>q1 q2. q = q1 @ q2 \<and> is_walk g a q1 y \<and> is_walk g y q2 b
            \<and> map (\<lambda>e. fst (snd e)) q2 = ys \<and> length q1 = length xs"
  using assms
proof (induction xs arbitrary: a q)
  case Nil
  then have "a = y" "map (\<lambda>e. fst (snd e)) q = ys" by auto
  with Nil.prems(1) show ?case by (intro exI[of _ "[]"] exI[of _ q]) simp
next
  case (Cons x xs)
  from Cons.prems(2) obtain e q' where q: "q = e # q'"
    "fst (snd e) # map (\<lambda>e. fst (snd e)) q' = xs @ y # ys"
    by (cases q) auto
  from Cons.prems(1) q(1) have w: "e \<in> set (edges g)" "fst e = a" "is_walk g (fst (snd e)) q' b"
    by auto
  from Cons.IH[OF w(3) q(2)] obtain q1 q2 where
    "q' = q1 @ q2" "is_walk g (fst (snd e)) q1 y" "is_walk g y q2 b"
    "map (\<lambda>e. fst (snd e)) q2 = ys" "length q1 = length xs" by blast
  with q(1) w(1,2) show ?case
    by (intro exI[of _ "e # q1"] exI[of _ q2]) simp
qed

lemma walk_nodes_subset:
  "wf_graph g \<Longrightarrow> is_walk g a q b \<Longrightarrow> set (map (\<lambda>e. fst (snd e)) q) \<subseteq> set (nodes g)"
proof (induction q arbitrary: a)
  case Nil then show ?case by simp
next
  case (Cons e q)
  obtain u v w where e: "e = (u, v, w)" by (cases e)
  with Cons.prems have "v \<in> set (nodes g)" "is_walk g v q b" by (auto dest: edge_nodes)
  with Cons.IH[OF Cons.prems(1), of v] e show ?case by simp
qed

lemma long_walk_has_cycle:
  assumes "wf_graph g" "is_walk g a q b" "length (nodes g) \<le> length q" "q \<noteq> []"
  shows "\<exists>q1 c q2 y. q = q1 @ c @ q2 \<and> c \<noteq> [] \<and> is_walk g a q1 y \<and> is_walk g y c y
            \<and> is_walk g y q2 b"
proof -
  let ?vs = "a # map (\<lambda>e. fst (snd e)) q"
  from assms(2,4) obtain v w q' where "q = (a, v, w) # q'" "(a, v, w) \<in> set (edges g)"
    by (cases q) auto
  then have "a \<in> set (nodes g)" using edge_nodes(1)[OF assms(1)] by blast
  with walk_nodes_subset[OF assms(1,2)] have sub: "set ?vs \<subseteq> set (nodes g)" by simp
  have "\<not> distinct ?vs"
  proof
    assume "distinct ?vs"
    then have "length ?vs = card (set ?vs)" by (simp only: distinct_card)
    also have "\<dots> \<le> card (set (nodes g))" using sub by (intro card_mono) simp_all
    also have "\<dots> \<le> length (nodes g)" by (rule card_length)
    finally show False using assms(3) by simp
  qed
  then obtain xs ys zs y where vs: "?vs = xs @ [y] @ ys @ [y] @ zs"
    using not_distinct_decomp by blast
  then have "?vs = xs @ y # (ys @ [y] @ zs)" by simp
  from walk_split[OF assms(2) this] obtain q1 r where
    1: "q = q1 @ r" "is_walk g a q1 y" "is_walk g y r b"
       "map (\<lambda>e. fst (snd e)) r = ys @ [y] @ zs" by blast
  from 1(4) have "y # map (\<lambda>e. fst (snd e)) r = (y # ys) @ y # zs" by simp
  from walk_split[OF 1(3) this] obtain c q2 where
    2: "r = c @ q2" "is_walk g y c y" "is_walk g y q2 b" "length c = length (y # ys)" by blast
  from 2(4) have "c \<noteq> []" by auto
  with 1 2 show ?thesis by blast
qed

lemma shorten_walk:
  fixes g :: "('n, 'w::linordered_idom) digraph"
  assumes "wf_graph g" "\<not> neg_cycle_reachable g s"
  shows "is_walk g s q v \<Longrightarrow>
     \<exists>q'. is_walk g s q' v \<and> length q' \<le> length (nodes g) - 1 \<and> walk_weight q' \<le> walk_weight q"
proof (induction q rule: length_induct)
  case (1 q)
  note IH = "1.IH" and walk = "1.prems"
  show ?case
  proof (cases "length q \<le> length (nodes g) - 1")
    case True
    with walk show ?thesis by blast
  next
    case False
    then have long: "length (nodes g) \<le> length q" "q \<noteq> []" by auto
    from long_walk_has_cycle[OF assms(1) walk long] obtain q1 c q2 y where
      d: "q = q1 @ c @ q2" "c \<noteq> []" "is_walk g s q1 y" "is_walk g y c y" "is_walk g y q2 v"
      by blast
    from assms(2) d(3,4) have "0 \<le> walk_weight c"
      by (fastforce simp: neg_cycle_reachable_def not_less)
    with d(1) have le: "walk_weight (q1 @ q2) \<le> walk_weight q" by simp
    from d(3,5) have w: "is_walk g s (q1 @ q2) v" by (auto simp: is_walk_append)
    from d(1,2) have "length (q1 @ q2) < length q" by (cases c) auto
    with IH w obtain q' where "is_walk g s q' v" "length q' \<le> length (nodes g) - 1"
      "walk_weight q' \<le> walk_weight (q1 @ q2)" by blast
    with le show ?thesis by (intro exI[of _ q']) simp
  qed
qed

subsection \<open>Without a reachable negative cycle the rounds reach a fixed point\<close>

lemma rounds_stable:
  fixes g :: "('n, 'w::linordered_idom) digraph"
  assumes "wf_graph g" "\<not> neg_cycle_reachable g s"
    and r: "relax_rounds (length (nodes g) - 1) (edges g) (init_state g s) = Inr st"
  shows "stable (edges g) (fst st)"
proof -
  have "\<exists>st'. relax_rounds (length (nodes g) - 1) (edges g) (init_state g s) = Inr st'
          \<and> keys_ok g st'"
    by (rule relax_rounds_total[OF keys_ok_init wf_edges_ok[OF assms(1)]])
  with r have k: "keys_ok g st" by simp
  from rounds_covers[OF covers_init r] have c: "covers g s (length (nodes g) - 1) (fst st)" by simp
  from rounds_sound[OF r] have s: "sound g s (fst st)" .
  show ?thesis unfolding stable_def
  proof (intro ballI, clarify)
    fix u v w assume e: "(u, v, w) \<in> set (edges g)"
    from keys_ok_edges[OF assms(1) k] e obtain du dv where
      dd: "fst st u = Some du" "fst st v = Some dv" by fastforce
    have "\<not> ext_less (ext_add du w) dv"
    proof (cases du)
      case PosInf then show ?thesis by simp
    next
      case (Num x)
      with s dd(1) obtain q where q: "is_walk g s q u" "walk_weight q = x"
        by (auto simp: sound_def)
      with e have "is_walk g s (q @ [(u, v, w)]) v" by (simp add: is_walk_snoc)
      from shorten_walk[OF assms(1,2) this] q(2) obtain q' where
        q': "is_walk g s q' v" "length q' \<le> length (nodes g) - 1" "walk_weight q' \<le> x + w"
        by auto
      with c have "le_at (fst st) v (walk_weight q')" by (auto simp: covers_def)
      with dd(2) q'(3) obtain y where "dv = Num y" "y \<le> x + w" by (auto simp: le_at_def)
      with Num show ?thesis by simp
    qed
    with dd show "\<exists>du dv. fst st u = Some du \<and> fst st v = Some dv \<and> \<not> ext_less (ext_add du w) dv"
      by blast
  qed
qed


lemma wf_g_abc: "wf_graph g_abc"
  by (simp add: g_abc_def wf_graph_def nodes_def)

lemma g_abc_no_neg: "\<not> neg_cycle_reachable g_abc ''A''"
proof (rule stable_no_neg_cycle)
  show "stable (edges g_abc) [''A'' \<mapsto> Num 0, ''B'' \<mapsto> Num 2, ''C'' \<mapsto> Num 1]"
    by (simp add: stable_def g_abc_def edges_def)
  show "le_at [''A'' \<mapsto> Num 0, ''B'' \<mapsto> Num 2, ''C'' \<mapsto> Num (1::int)] ''A'' 0"
    by (simp add: le_at_def)
qed


subsection \<open>The predecessor links\<close>

lemma pred_chain_walk:
  fixes g :: "('n, 'w::linordered_idom) digraph"
  assumes pe: "pred_edges g d p" and ch: "(b, a) \<in> (pred_rel p)\<^sup>*"
  shows "d a = Some (Num c) \<Longrightarrow>
           \<exists>q x. is_walk g b q a \<and> d b = Some (Num x) \<and> x + walk_weight q \<le> c"
  using ch
proof (induction arbitrary: c rule: rtrancl_induct)
  case base
  then show ?case by (intro exI[of _ "[]"] exI[of _ c]) simp
next
  case (step y z)
  from step.hyps(2) have "p z = Some (Some y)" by (simp add: pred_rel_def)
  with pe step.prems obtain w x' where
    e: "(y, z, w) \<in> set (edges g)" "d y = Some (Num x')" "x' + w \<le> c"
    by (fastforce simp: pred_edges_def)
  from step.IH[OF e(2)] obtain q x where
    q: "is_walk g b q y" "d b = Some (Num x)" "x + walk_weight q \<le> x'" by blast
  from q(3) e(3) have "x + walk_weight (q @ [(y, z, w)]) \<le> c" by simp
  with q e(1) show ?case
    by (intro exI[of _ "q @ [(y, z, w)]"] exI[of _ x]) (simp add: is_walk_snoc)
qed

lemma pred_inv_init:
  fixes g :: "('n, 'w::linordered_idom) digraph"
  shows "pred_inv g s (init_state g s)"
proof -
  have "pred_rel (snd (init_state g s)) = {}" by (auto simp: pred_rel_def init_pred)
  then have "wf (pred_rel (snd (init_state g s)))" by simp
  then show ?thesis
    by (cases "init_state g s")
       (use init_dist[of g s] init_pred[of g s] in
        \<open>auto simp: pred_inv_def pred_edges_def split: if_splits\<close>)
qed

lemma relax_edge_pred_inv:
  fixes g :: "('n, 'w::linordered_idom) digraph"
  assumes nnc: "\<not> neg_cycle_reachable g s" and snd: "sound g s (fst st)"
    and inv: "pred_inv g s st" and r: "relax_edge e st = Inr st'" and e: "e \<in> set (edges g)"
  shows "pred_inv g s st'"
proof -
  obtain a b w d p d' p' where [simp]: "e = (a, b, w)" "st = (d, p)" "st' = (d', p')"
    by (cases e; cases st; cases st') auto
  from inv have pe: "pred_edges g d p"
    and roots: "\<And>v x. d v = Some (Num x) \<Longrightarrow> v = s \<or> (\<exists>u. p v = Some (Some u))"
    and ds: "d s = Some (Num 0)" and ps: "\<And>u. p s \<noteq> Some (Some u)"
    and wfp: "wf (pred_rel p)"
    by (auto simp: pred_inv_def)
  from r have "relax_edge (a, b, w) (d, p) = Inr (d', p')" by simp
  then show ?thesis
  proof (cases rule: relax_edge_cases)
    case (keep du dv)
    with inv show ?thesis by simp
  next
    case (improve c)
    from snd improve(1) obtain qa where qa: "is_walk g s qa a" "walk_weight qa = c"
      by (auto simp: sound_def)
    from improve(2) obtain db where db: "d b = Some db" by auto
    with improve(3) have lt: "ext_less (Num (c + w)) db" by simp
    have edge: "(a, b, w) \<in> set (edges g)" using e by simp
    have reach_b: "is_walk g s (qa @ [(a, b, w)]) b" using qa edge by (simp add: is_walk_snoc)
    have below: "c + w < x" if "d b = Some (Num x)" for x using db lt that by auto
    have bs: "b \<noteq> s"
    proof
      assume "b = s"
      with ds below have "c + w < 0" by simp
      with reach_b qa(2) \<open>b = s\<close> have
        "is_walk g s [] s \<and> is_walk g s (qa @ [(a, b, w)]) s \<and> walk_weight (qa @ [(a, b, w)]) < 0"
        by simp
      with nnc show False unfolding neg_cycle_reachable_def by blast
    qed
    have 1: "pred_edges g d' p'" unfolding pred_edges_def
    proof (intro allI impI)
      fix v u assume pv: "p' v = Some (Some u)"
      show "\<exists>w x y. (u, v, w) \<in> set (edges g) \<and> d' u = Some (Num x) \<and> d' v = Some (Num y) \<and> x + w \<le> y"
      proof (cases "v = b")
        case True
        with pv improve(5) have ua: "u = a" by simp
        show ?thesis
        proof (cases "a = b")
          case ab: True
          with improve(1) below have "c + w < c" by simp
          then have "(c + w) + w \<le> c + w" by simp
          with True ua ab edge improve(4) show ?thesis
            by (intro exI[of _ w] exI[of _ "c + w"] exI[of _ "c + w"]) simp
        next
          case ab: False
          with True ua edge improve(1,4) show ?thesis
            by (intro exI[of _ w] exI[of _ c] exI[of _ "c + w"]) simp
        qed
      next
        case False
        with pv improve(5) have "p v = Some (Some u)" by simp
        with pe obtain w' x y where
          o: "(u, v, w') \<in> set (edges g)" "d u = Some (Num x)" "d v = Some (Num y)" "x + w' \<le> y"
          unfolding pred_edges_def by blast
        show ?thesis
        proof (cases "u = b")
          case ub: True
          with o(2) below have "c + w < x" by simp
          with o(4) have "(c + w) + w' \<le> y" by simp
          with ub False o improve(4) show ?thesis
            by (intro exI[of _ w'] exI[of _ "c + w"] exI[of _ y]) simp
        next
          case ub: False
          with False o improve(4) show ?thesis
            by (intro exI[of _ w'] exI[of _ x] exI[of _ y]) simp
        qed
      qed
    qed
    have 2: "v = s \<or> (\<exists>u. p' v = Some (Some u))" if "d' v = Some (Num x)" for v x
    proof (cases "v = b")
      case True with improve(5) show ?thesis by simp
    next
      case False
      with that improve(4) have "d v = Some (Num x)" by simp
      from roots[OF this] False improve(5) show ?thesis by simp
    qed
    have 3: "d' s = Some (Num 0)" using ds bs improve(4) by simp
    have 4: "p' s \<noteq> Some (Some u)" for u using ps bs improve(5) by simp
    have 5: "wf (pred_rel p')"
    proof -
      have nb: "(b, a) \<notin> (pred_rel p)\<^sup>*"
      proof
        assume "(b, a) \<in> (pred_rel p)\<^sup>*"
        from pred_chain_walk[OF pe this improve(1)] obtain q x where
          q: "is_walk g b q a" "d b = Some (Num x)" "x + walk_weight q \<le> c" by blast
        from below[OF q(2)] q(3) have "walk_weight (q @ [(a, b, w)]) < 0" by simp
        moreover have "is_walk g b (q @ [(a, b, w)]) b" using q(1) edge by (simp add: is_walk_snoc)
        ultimately show False using nnc reach_b unfolding neg_cycle_reachable_def by blast
      qed
      let ?r = "pred_rel p - {(u, v). v = b}"
      have eq: "pred_rel p' = insert (a, b) ?r"
        using improve(5) by (auto simp: pred_rel_def split: if_splits)
      have "wf ?r" using wfp by (rule wf_subset) auto
      moreover have "?r\<^sup>* \<subseteq> (pred_rel p)\<^sup>*" by (rule rtrancl_mono) auto
      with nb have "(b, a) \<notin> ?r\<^sup>*" by auto
      ultimately show ?thesis unfolding eq by (simp add: wf_insert)
    qed
    from 2 have r2: "\<forall>v x. d' v = Some (Num x) \<longrightarrow> v = s \<or> (\<exists>u. p' v = Some (Some u))"
      by blast
    from 1 r2 3 4 5 show ?thesis unfolding pred_inv_def by simp
  qed
qed

lemma rounds_pred_inv:
  fixes g :: "('n, 'w::linordered_idom) digraph"
  assumes nnc: "\<not> neg_cycle_reachable g s"
    and r: "relax_rounds k (edges g) (init_state g s) = Inr st"
  shows "pred_inv g s st"
proof -
  have "sound g s (fst st) \<and> pred_inv g s st"
  proof (rule relax_rounds_rule[where I = "\<lambda>st. sound g s (fst st) \<and> pred_inv g s st", OF r])
    show "sound g s (fst (init_state g s)) \<and> pred_inv g s (init_state g s)"
      by (simp add: sound_init pred_inv_init)
  next
    fix e and s1 s2 :: "('n, 'w) state"
    assume "e \<in> set (edges g)" "sound g s (fst s1) \<and> pred_inv g s s1" "relax_edge e s1 = Inr s2"
    then show "sound g s (fst s2) \<and> pred_inv g s s2"
      using relax_edge_sound[of g s s1 e s2] relax_edge_pred_inv[OF nnc, of s1 e s2] by blast
  qed
  then show ?thesis ..
qed

subsection \<open>The predecessor walk ends\<close>

lemma chain_ok_snoc:
  "chain_ok p (ys @ [u]) \<Longrightarrow> p c = Some (Some u) \<Longrightarrow> chain_ok p (ys @ [u, c])"
proof (induction ys)
  case Nil then show ?case by simp
next
  case (Cons y ys)
  then show ?case by (cases ys) auto
qed

lemma walk_back_ends:
  assumes wfp: "wf (pred_rel p)" and cl: "\<And>v u. p v = Some (Some u) \<Longrightarrow> u \<in> dom p"
  shows "c \<in> dom p \<Longrightarrow>
     \<exists>xs. walk_back p (Some c) path = Some (Inr (xs @ c # path))
        \<and> chain_ok p (xs @ [c]) \<and> p (hd (xs @ [c])) = Some None"
  using wfp
proof (induction c arbitrary: path rule: wf_induct_rule)
  case (less c)
  from less.prems obtain r where r: "p c = Some r" by auto
  show ?case
  proof (cases r)
    case None
    with r have "walk_back p (Some c) path = Some (Inr (c # path))"
      by (subst walk_back.simps, simp, subst walk_back.simps, simp)
    with r None show ?thesis by (intro exI[of _ "[]"]) simp
  next
    case (Some u)
    with r have pc: "p c = Some (Some u)" by simp
    then have "(u, c) \<in> pred_rel p" "u \<in> dom p" using cl by (auto simp: pred_rel_def)
    from less.IH[OF this, of "c # path"] obtain xs where
      xs: "walk_back p (Some u) (c # path) = Some (Inr (xs @ u # c # path))"
          "chain_ok p (xs @ [u])" "p (hd (xs @ [u])) = Some None" by blast
    from pc xs(1) have "walk_back p (Some c) path = Some (Inr ((xs @ [u]) @ c # path))"
      by (subst walk_back.simps) simp
    moreover from chain_ok_snoc[OF xs(2) pc] have "chain_ok p ((xs @ [u]) @ [c])" by simp
    moreover from xs(3) have "p (hd ((xs @ [u]) @ [c])) = Some None" by (cases xs) auto
    ultimately show ?thesis by blast
  qed
qed


lemma build_paths_result:
  assumes "\<forall>n\<in>set ns. (\<exists>xs. walk_back p (Some n) [] = Some (Inr xs)) \<and> n \<in> dom d"
  shows "\<exists>paths. build_paths ns d p paths0 = Some (Inr paths)
           \<and> (\<forall>n. paths n = (if n \<in> set ns \<and> d n \<noteq> Some PosInf then path_of p n else paths0 n))"
  using assms
proof (induction ns arbitrary: paths0)
  case Nil then show ?case by simp
next
  case (Cons m ns)
  from Cons.prems obtain xs dm where
    m: "walk_back p (Some m) [] = Some (Inr xs)" "d m = Some dm" by auto
  let ?p1 = "if dm \<noteq> PosInf then paths0(m \<mapsto> xs) else paths0"
  from Cons.IH[of ?p1] Cons.prems obtain paths where
    ps: "build_paths ns d p ?p1 = Some (Inr paths)"
        "\<And>n. paths n = (if n \<in> set ns \<and> d n \<noteq> Some PosInf then path_of p n else ?p1 n)"
    by auto
  from m ps(1) have "build_paths (m # ns) d p paths0 = Some (Inr paths)" by simp
  moreover have "paths n = (if n \<in> set (m # ns) \<and> d n \<noteq> Some PosInf then path_of p n else paths0 n)" for n
    using ps(2)[of n] m by (auto simp: path_of_def)
  ultimately show ?case by blast
qed

subsection \<open>What a run of the engine establishes\<close>

lemma bellman_ford_InrD:
  assumes "bellman_ford g s = Some (Inr (d, paths))"
  shows "\<exists>p. relax_rounds (length (nodes g) - 1) (edges g) (init_state g s) = Inr (d, p)
           \<and> check_pass (edges g) d = Inr ()
           \<and> build_paths (nodes g) d p Map.empty = Some (Inr paths)"
  using assms unfolding bellman_ford_def
  by (auto split: sum.splits option.splits prod.splits)

lemma pred_closed:
  assumes "keys_ok g (d, p)" "pred_edges g d p" "p v = Some (Some u)"
  shows "u \<in> dom p"
proof -
  from assms(2,3) obtain w where "(u, v, w) \<in> set (edges g)" unfolding pred_edges_def by blast
  then have "u \<in> set (nodes g)" by (force simp: edges_iff nodes_def)
  with assms(1) show ?thesis by (auto simp: keys_ok_def)
qed

lemma run_state:
  fixes g :: "('n, 'w::linordered_idom) digraph"
  assumes wf: "wf_graph g"
    and r: "relax_rounds (length (nodes g) - 1) (edges g) (init_state g s) = Inr (d, p)"
    and st: "stable (edges g) d"
  shows "\<not> neg_cycle_reachable g s" "keys_ok g (d, p)" "sound g s d" "pred_inv g s (d, p)"
    "\<exists>paths. build_paths (nodes g) d p Map.empty = Some (Inr paths)
        \<and> bellman_ford g s = Some (Inr (d, paths))
        \<and> (\<forall>n. paths n = (if n \<in> set (nodes g) \<and> d n \<noteq> Some PosInf then path_of p n else None))"
    "\<And>n path. n \<in> set (nodes g) \<Longrightarrow>
        \<exists>xs. walk_back p (Some n) path = Some (Inr (xs @ n # path))
           \<and> chain_ok p (xs @ [n]) \<and> p (hd (xs @ [n])) = Some None"
proof -
  from rounds_source_le0[OF r] have "le_at d s 0" by simp
  with st show nnc: "\<not> neg_cycle_reachable g s" by (rule stable_no_neg_cycle)
  have "\<exists>st'. relax_rounds (length (nodes g) - 1) (edges g) (init_state g s) = Inr st'
          \<and> keys_ok g st'"
    by (rule relax_rounds_total[OF keys_ok_init wf_edges_ok[OF wf]])
  with r show k: "keys_ok g (d, p)" by simp
  from rounds_sound[OF r] show "sound g s d" by simp
  from rounds_pred_inv[OF nnc r] show inv: "pred_inv g s (d, p)" .
  then have pe: "pred_edges g d p" and wfp: "wf (pred_rel p)" by (auto simp: pred_inv_def)
  show ends: "\<exists>xs. walk_back p (Some n) path = Some (Inr (xs @ n # path))
           \<and> chain_ok p (xs @ [n]) \<and> p (hd (xs @ [n])) = Some None"
    if "n \<in> set (nodes g)" for n path
  proof (rule walk_back_ends[OF wfp])
    show "u \<in> dom p" if "p v = Some (Some u)" for v u using pred_closed[OF k pe that] .
    show "n \<in> dom p" using k that by (auto simp: keys_ok_def)
  qed
  have "\<forall>n\<in>set (nodes g). (\<exists>xs. walk_back p (Some n) [] = Some (Inr xs)) \<and> n \<in> dom d"
  proof
    fix n assume n: "n \<in> set (nodes g)"
    from ends[OF n, of "[]"] have "\<exists>xs. walk_back p (Some n) [] = Some (Inr xs)" by auto
    moreover from k n have "n \<in> dom d" by (auto simp: keys_ok_def)
    ultimately show "(\<exists>xs. walk_back p (Some n) [] = Some (Inr xs)) \<and> n \<in> dom d" ..
  qed
  from build_paths_result[OF this, of Map.empty] obtain paths where
    ps: "build_paths (nodes g) d p Map.empty = Some (Inr paths)"
        "\<forall>n. paths n = (if n \<in> set (nodes g) \<and> d n \<noteq> Some PosInf then path_of p n else None)"
    by auto
  from st have "check_pass (edges g) d = Inr ()" by (simp add: check_pass_Inr_iff)
  with r ps(1) have "bellman_ford g s = Some (Inr (d, paths))" by (simp add: bellman_ford_def)
  with ps show "\<exists>paths. build_paths (nodes g) d p Map.empty = Some (Inr paths)
        \<and> bellman_ford g s = Some (Inr (d, paths))
        \<and> (\<forall>n. paths n = (if n \<in> set (nodes g) \<and> d n \<noteq> Some PosInf then path_of p n else None))"
    by blast
qed

lemma no_cycle_run:
  fixes g :: "('n, 'w::linordered_idom) digraph"
  assumes "wf_graph g" "\<not> neg_cycle_reachable g s"
  shows "\<exists>d p. relax_rounds (length (nodes g) - 1) (edges g) (init_state g s) = Inr (d, p)
           \<and> stable (edges g) d"
proof -
  from relax_rounds_total[OF keys_ok_init wf_edges_ok[OF assms(1)]]
  obtain st where st: "relax_rounds (length (nodes g) - 1) (edges g) (init_state g s) = Inr st"
    by blast
  obtain d p where dp: "st = (d, p)" by (cases st)
  from rounds_stable[OF assms st] dp have "stable (edges g) d" by simp
  with st dp show ?thesis by blast
qed

lemma no_cycle_returns:
  fixes g :: "('n, 'w::linordered_idom) digraph"
  assumes "wf_graph g" "\<not> neg_cycle_reachable g s"
  shows "\<exists>d paths. bellman_ford g s = Some (Inr (d, paths))"
proof -
  from no_cycle_run[OF assms] obtain d p where
    "relax_rounds (length (nodes g) - 1) (edges g) (init_state g s) = Inr (d, p)"
    "stable (edges g) d" by blast
  from run_state(5)[OF assms(1) this] show ?thesis by blast
qed


lemma chain_linked:
  "pred_edges g d p \<Longrightarrow> chain_ok p xs \<Longrightarrow> linked g xs"
proof (induction p xs rule: chain_ok.induct)
  case (1 p x y zs)
  then show ?case unfolding pred_edges_def by fastforce
qed simp_all

lemma returned_path:
  fixes g :: "('n, 'w::linordered_idom) digraph"
  assumes wf: "wf_graph g" and bf: "bellman_ford g s = Some (Inr (d, paths))"
    and pn: "paths n = Some xs"
  shows "\<exists>ys. xs = ys @ [n]" "hd xs = s" "linked g xs" "\<exists>x. d n = Some (Num x)"
proof -
  from bellman_ford_InrD[OF bf] obtain p where
    r: "relax_rounds (length (nodes g) - 1) (edges g) (init_state g s) = Inr (d, p)"
    and c: "stable (edges g) d"
    and b: "build_paths (nodes g) d p Map.empty = Some (Inr paths)"
    by (auto simp: check_pass_Inr_iff)
  note rs = run_state[OF wf r c]
  from rs(5) b have ps: "paths n = (if n \<in> set (nodes g) \<and> d n \<noteq> Some PosInf then path_of p n else None)"
    by auto
  with pn have n: "n \<in> set (nodes g)" "d n \<noteq> Some PosInf" "path_of p n = Some xs"
    by (auto split: if_splits)
  from rs(2) n(1) obtain dn where "d n = Some dn" by (auto simp: keys_ok_def)
  with n(2) show fin: "\<exists>x. d n = Some (Num x)" by (cases dn) auto
  from rs(6)[OF n(1), of "[]"] obtain ys where
    ys: "walk_back p (Some n) [] = Some (Inr (ys @ [n]))" "chain_ok p (ys @ [n])"
        "p (hd (ys @ [n])) = Some None" by auto
  with n(3) have xs: "xs = ys @ [n]" by (simp add: path_of_def)
  then show "\<exists>ys. xs = ys @ [n]" ..
  from rs(4) have pe: "pred_edges g d p"
    and roots: "\<And>v x. d v = Some (Num x) \<Longrightarrow> v = s \<or> (\<exists>u. p v = Some (Some u))"
    by (auto simp: pred_inv_def)
  from chain_linked[OF pe ys(2)] xs show "linked g xs" by simp
  have "\<exists>x. d (hd xs) = Some (Num x)"
  proof (cases ys)
    case Nil
    with xs fin show ?thesis by simp
  next
    case (Cons y ys')
    then obtain z zs where "ys' @ [n] = z # zs" by (cases ys') auto
    with Cons ys(2) xs have "hd xs = y" "p z = Some (Some y)" by auto
    with pe show ?thesis unfolding pred_edges_def by fastforce
  qed
  then obtain x where "d (hd xs) = Some (Num x)" ..
  from roots[OF this] ys(3) xs show "hd xs = s" by auto
qed

subsection \<open>The example graphs\<close>

lemma wf_g_short: "wf_graph g_short"
  by (simp add: g_short_def wf_graph_def nodes_def)


lemma g_short_run:
  "\<exists>d paths. bellman_ford g_short ''A'' = Some (Inr (d, paths))
     \<and> d ''C'' = Some (Num (- 2)) \<and> paths ''C'' = Some [''A'', ''B'', ''C'']"
  by (simp add: bellman_ford_def g_short_def nodes_def edges_def init_state_def relax_edge_def
      walk_back.simps)




lemma wf_g_iso: "wf_graph g_iso"
  by (simp add: g_iso_def wf_graph_def nodes_def)




subsection \<open>The claims about a returning run\<close>







text \<open>
  C6: when \<open>bellman_ford\<close> returns for a source that is a node of the graph, the source has
  distance 0 and the path \<open>[source]\<close>.
\<close>

theorem source_result:
  fixes g :: "('n, 'w::linordered_idom) digraph"
  assumes "wf_graph g" "s \<in> set (nodes g)" "bellman_ford g s = Some (Inr (d, paths))"
  shows "d s = Some (Num 0) \<and> paths s = Some [s]"
proof -
  from bellman_ford_InrD[OF assms(3)] obtain p where
    r: "relax_rounds (length (nodes g) - 1) (edges g) (init_state g s) = Inr (d, p)"
    and c: "stable (edges g) d"
    and b: "build_paths (nodes g) d p Map.empty = Some (Inr paths)"
    by (auto simp: check_pass_Inr_iff)
  note rs = run_state[OF assms(1) r c]
  from rs(4) have ds: "d s = Some (Num 0)" and ps: "\<And>u. p s \<noteq> Some (Some u)"
    by (auto simp: pred_inv_def)
  from rs(2) assms(2) obtain r' where "p s = Some r'" by (auto simp: keys_ok_def)
  with ps have "p s = Some None" by (cases r') auto
  then have "walk_back p (Some s) [] = Some (Inr [s])"
    by (subst walk_back.simps, simp, subst walk_back.simps, simp)
  then have "path_of p s = Some [s]" by (simp add: path_of_def)
  with rs(5) b assms(2) ds show ?thesis by auto
qed

theorem source_result_witness:
  "wf_graph g_abc \<and> ''A'' \<in> set (nodes g_abc)
   \<and> (\<exists>d paths. bellman_ford g_abc ''A'' = Some (Inr (d, paths))
         \<and> d ''A'' = Some (Num 0) \<and> paths ''A'' = Some [''A''])"
proof -
  have m: "''A'' \<in> set (nodes g_abc)" by (simp add: g_abc_def nodes_def)
  from no_cycle_returns[OF wf_g_abc g_abc_no_neg] obtain d paths where
    bf: "bellman_ford g_abc ''A'' = Some (Inr (d, paths))" by blast
  from source_result[OF wf_g_abc m bf] bf wf_g_abc m show ?thesis by blast
qed

text \<open>
  C7: every path \<open>bellman_ford\<close> returns starts at the source, ends at the node it is
  stored under, and each node on it is joined to the next by an edge of the graph.
\<close>

theorem returned_paths_follow_edges:
  fixes g :: "('n, 'w::linordered_idom) digraph"
  assumes "wf_graph g" "bellman_ford g s = Some (Inr (d, paths))" "paths n = Some xs"
  shows "xs \<noteq> [] \<and> hd xs = s \<and> last xs = n \<and> linked g xs"
  using returned_path(1,2,3)[OF assms] by auto

theorem returned_paths_follow_edges_witness:
  "wf_graph g_short
   \<and> (\<exists>d paths. bellman_ford g_short ''A'' = Some (Inr (d, paths))
         \<and> paths ''C'' = Some [''A'', ''B'', ''C'']
         \<and> [''A'', ''B'', ''C''] \<noteq> [] \<and> hd [''A'', ''B'', ''C''] = ''A''
         \<and> last [''A'', ''B'', ''C''] = ''C'' \<and> linked g_short [''A'', ''B'', ''C''])"
proof -
  from g_short_run obtain d paths where
    bf: "bellman_ford g_short ''A'' = Some (Inr (d, paths))"
        "paths ''C'' = Some [''A'', ''B'', ''C'']" by blast
  from returned_paths_follow_edges[OF wf_g_short bf] bf wf_g_short show ?thesis by blast
qed



subsection \<open>A source that is not a node\<close>

lemma relax_rounds_stable: "stable es (fst st) \<Longrightarrow> relax_rounds k es st = Inr st"
  by (induction k) (cases st, simp_all add: relax_pass_stable)+

lemma init_stable_outside:
  assumes "wf_graph g" "s \<notin> set (nodes g)"
  shows "stable (edges g) (fst (init_state g s))"
  unfolding stable_def
proof (intro ballI, clarify)
  fix u v w assume "(u, v, w) \<in> set (edges g)"
  with assms(1) have "u \<in> set (nodes g)" "v \<in> set (nodes g)" by (auto dest: edge_nodes)
  with assms(2) have "fst (init_state g s) u = Some PosInf" "fst (init_state g s) v = Some PosInf"
    by (auto simp: init_dist)
  then show "\<exists>du dv. fst (init_state g s) u = Some du \<and> fst (init_state g s) v = Some dv
                \<and> \<not> ext_less (ext_add du w) dv" by simp
qed

text \<open>
  C4, as the code has it: \<open>distances[source] = 0\<close> adds the key, no edge leaves a node
  that is not in the graph, and so for a source outside the node set \<open>bellman_ford\<close>
  raises nothing: it returns infinity for every node of the graph, 0 for the source, and
  no paths.
\<close>

theorem source_outside_graph_returns:
  assumes "wf_graph g" "s \<notin> set (nodes g)"
  shows "bellman_ford g s =
     Some (Inr ((\<lambda>n. if n = s then Some (Num 0)
                     else if n \<in> set (nodes g) then Some PosInf else None), Map.empty))"
proof -
  let ?d = "fst (init_state g s)" and ?p = "snd (init_state g s)"
  have st: "stable (edges g) ?d" by (rule init_stable_outside[OF assms])
  then have r: "relax_rounds (length (nodes g) - 1) (edges g) (init_state g s) = Inr (?d, ?p)"
    by (simp add: relax_rounds_stable)
  from st have c: "check_pass (edges g) ?d = Inr ()" by (simp add: check_pass_Inr_iff)
  have "\<forall>n\<in>set (nodes g). (\<exists>xs. walk_back ?p (Some n) [] = Some (Inr xs)) \<and> n \<in> dom ?d"
  proof
    fix n assume n: "n \<in> set (nodes g)"
    then have "?p n = Some None" by (simp add: init_pred)
    then have "walk_back ?p (Some n) [] = Some (Inr [n])"
      by (subst walk_back.simps, simp, subst walk_back.simps, simp)
    moreover from n have "n \<in> dom ?d" by (simp add: init_dist dom_def)
    ultimately show "(\<exists>xs. walk_back ?p (Some n) [] = Some (Inr xs)) \<and> n \<in> dom ?d" by simp
  qed
  from build_paths_result[OF this, of Map.empty] obtain paths where
    b: "build_paths (nodes g) ?d ?p Map.empty = Some (Inr paths)"
    and ps: "\<And>n. paths n = (if n \<in> set (nodes g) \<and> ?d n \<noteq> Some PosInf then path_of ?p n else None)"
    by auto
  have "paths n = None" for n using ps[of n] assms(2) by (auto simp: init_dist)
  then have "paths = Map.empty" by (intro ext)
  moreover have "?d = (\<lambda>n. if n = s then Some (Num 0)
                     else if n \<in> set (nodes g) then Some PosInf else None)"
    by (intro ext) (simp add: init_dist)
  moreover from r c b have "bellman_ford g s = Some (Inr (?d, paths))"
    by (simp add: bellman_ford_def case_prod_beta)
  ultimately show ?thesis by simp
qed

theorem source_outside_graph_returns_witness:
  "wf_graph g_iso \<and> ''Z'' \<notin> set (nodes g_iso)
   \<and> bellman_ford g_iso ''Z'' =
       Some (Inr ((\<lambda>n. if n = ''Z'' then Some (Num 0)
                     else if n \<in> set (nodes g_iso) then Some PosInf else None), Map.empty))"
proof -
  have m: "''Z'' \<notin> set (nodes g_iso)" by (simp add: g_iso_def nodes_def)
  from source_outside_graph_returns[OF wf_g_iso m] wf_g_iso m show ?thesis by blast
qed

theorem source_outside_graph_counterexample:
  "''Z'' \<notin> set (nodes g_abc) \<and> reported_distance g_abc ''Z'' ''Z'' = Some (Inr (Some (Num 0)))
   \<and> reported_distance g_abc ''Z'' ''B'' = Some (Inr (Some PosInf))"
  by (simp add: reported_distance_def bellman_ford_def g_abc_def nodes_def edges_def
      init_state_def relax_edge_def walk_back.simps)

subsection \<open>Duplicate rows\<close>

lemma load_rows_snoc:
  "load_rows (rs @ [r]) = add_edge (Source r) (Target r) (Weight r) (load_rows rs)"
  by (simp add: load_rows_def)

lemma map_entry_append:
  "AList.map_entry k f (xs @ ys) =
     (if k \<in> fst ` set xs then AList.map_entry k f xs @ ys else xs @ AList.map_entry k f ys)"
  by (induction xs) auto

lemma map_entry_notin: "k \<notin> fst ` set xs \<Longrightarrow> AList.map_entry k f xs = xs"
  by (induction xs) auto

lemma map_entry_twice:
  "AList.map_entry k f (AList.map_entry k h xs) = AList.map_entry k (f \<circ> h) xs"
  by (induction xs) auto

lemma map_entry_swap:
  "k \<noteq> k' \<Longrightarrow> AList.map_entry k f (AList.map_entry k' h xs)
      = AList.map_entry k' h (AList.map_entry k f xs)"
  by (induction xs) auto

lemma map_entry_cong_fun:
  "(\<And>x. f x = h x) \<Longrightarrow> AList.map_entry k f xs = AList.map_entry k h xs"
  by (induction xs) auto

lemma update_after_set:
  "AList.update v w (AList.map_entry v (\<lambda>_. w') nbrs) = AList.update v w nbrs"
  by (induction nbrs) auto

lemma set_after_update:
  "AList.map_entry v (\<lambda>_. w) (AList.update b c nbrs)
     = AList.update b (if b = v then w else c) (AList.map_entry v (\<lambda>_. w) nbrs)"
  by (induction nbrs) auto

lemma nodes_set_weight: "nodes (set_weight u v w g) = nodes g"
  unfolding set_weight_def nodes_def by (induction g) auto

lemma add_node_set_weight: "add_node x (set_weight u v w g) = set_weight u v w (add_node x g)"
proof -
  have "AList.map_entry u (AList.map_entry v (\<lambda>_. w)) (g @ [(x, [])])
          = AList.map_entry u (AList.map_entry v (\<lambda>_. w)) g @ [(x, [])]"
    by (simp add: map_entry_append map_entry_notin)
  then show ?thesis
    using nodes_set_weight[of u v w g] by (simp add: add_node_def) (simp add: set_weight_def)
qed

lemma add_edge_set_weight_same:
  "add_edge u v w (set_weight u v w' g) = add_edge u v w g"
proof -
  have "add_edge u v w (set_weight u v w' g)
      = AList.map_entry u (AList.update v w) (set_weight u v w' (add_node v (add_node u g)))"
    by (simp add: add_edge_def add_node_set_weight)
  also have "\<dots> = AList.map_entry u (AList.update v w \<circ> AList.map_entry v (\<lambda>_. w'))
                      (add_node v (add_node u g))"
    by (simp add: set_weight_def map_entry_twice)
  also have "\<dots> = AList.map_entry u (AList.update v w) (add_node v (add_node u g))"
    by (rule map_entry_cong_fun) (simp add: update_after_set)
  finally show ?thesis by (simp add: add_edge_def)
qed

lemma set_weight_add_edge:
  "set_weight u v w (add_edge a b c g)
     = add_edge a b (if a = u \<and> b = v then w else c) (set_weight u v w g)"
proof -
  let ?h = "add_node b (add_node a g)"
  let ?c = "if a = u \<and> b = v then w else c"
  have "set_weight u v w (AList.map_entry a (AList.update b c) ?h)
          = AList.map_entry a (AList.update b ?c) (set_weight u v w ?h)"
  proof (cases "a = u")
    case True
    have "AList.map_entry u (AList.map_entry v (\<lambda>_. w) \<circ> AList.update b c) ?h
        = AList.map_entry u (AList.update b ?c \<circ> AList.map_entry v (\<lambda>_. w)) ?h"
      by (rule map_entry_cong_fun) (simp add: set_after_update True)
    with True show ?thesis by (simp add: set_weight_def map_entry_twice)
  next
    case False
    then show ?thesis by (simp add: set_weight_def map_entry_swap)
  qed
  then show ?thesis by (simp add: add_edge_def add_node_set_weight)
qed

lemma load_rows_override:
  "load_rows (map (override u v w) rs) = set_weight u v w (load_rows rs)"
proof (induction rs rule: rev_induct)
  case Nil
  show ?case by (simp add: load_rows_def set_weight_def)
next
  case (snoc r rs)
  then show ?case
    by (simp add: load_rows_snoc set_weight_add_edge) (simp add: override_def)
qed

lemma last_weight_rows_snoc:
  "last_weight_rows (rs @ [r])
     = map (override (Source r) (Target r) (Weight r)) (last_weight_rows rs) @ [r]"
  by (auto simp: last_weight_rows_def override_def same_pair_def)

lemma load_last_weight_rows: "load_rows (last_weight_rows rs) = load_rows rs"
proof (induction rs rule: rev_induct)
  case Nil
  show ?case by (simp add: last_weight_rows_def)
next
  case (snoc r rs)
  then show ?case
    by (simp add: last_weight_rows_snoc load_rows_snoc load_rows_override
        add_edge_set_weight_same)
qed

text \<open>
  C9, as the code has it: \<open>add_edge\<close> on an edge that is already there overwrites its
  weight, so among rows with the same ordered pair the last one decides. The loaded graph,
  and with it everything \<open>bellman_ford\<close> computes, is that of the rows in which each
  ordered pair carries the weight of its last row.
\<close>

theorem duplicate_rows_last_wins:
  "read_graph_from_excel columns rs = read_graph_from_excel columns (last_weight_rows rs)
   \<and> load_rows rs = load_rows (last_weight_rows rs)
   \<and> bellman_ford (load_rows rs) s = bellman_ford (load_rows (last_weight_rows rs)) s"
  by (simp add: load_last_weight_rows read_graph_from_excel_def)

theorem duplicate_rows_last_wins_witness:
  "load_rows dup_rows = load_rows (last_weight_rows dup_rows)
   \<and> bellman_ford (load_rows dup_rows) ''A''
       = bellman_ford (load_rows (last_weight_rows dup_rows)) ''A''
   \<and> edges (load_rows dup_rows) = [(''A'', ''B'', 5)]"
proof -
  have "edges (load_rows dup_rows) = [(''A'', ''B'', 5)]"
    by (simp add: dup_rows_def load_rows_def add_edge_def add_node_def nodes_def edges_def)
  with duplicate_rows_last_wins[of required_columns dup_rows "''A''"] show ?thesis by simp
qed

theorem duplicate_rows_minimum_counterexample:
  "reported_distance (load_rows dup_rows) ''A'' ''B'' = Some (Inr (Some (Num 5)))
   \<and> reported_distance (load_rows (min_weight_rows dup_rows)) ''A'' ''B'' = Some (Inr (Some (Num 1)))"
  by (simp add: reported_distance_def bellman_ford_def dup_rows_def min_weight_rows_def
      same_pair_def load_rows_def add_edge_def add_node_def nodes_def edges_def
      init_state_def relax_edge_def walk_back.simps)

subsection \<open>The loader builds well-formed graphs\<close>

lemma wf_graph_alt:
  "wf_graph g \<longleftrightarrow> distinct (nodes g)
     \<and> (\<forall>e\<in>set g. distinct (map fst (snd e)) \<and> fst ` set (snd e) \<subseteq> set (nodes g))"
  unfolding wf_graph_def by (rule conj_cong[OF refl]) fastforce

lemma wf_add_node: "wf_graph g \<Longrightarrow> wf_graph (add_node u g)"
  unfolding wf_graph_alt by (auto simp: add_node_def nodes_def)

lemma nodes_map_entry: "nodes (AList.map_entry k f g) = nodes g"
  unfolding nodes_def by (induction g) auto

lemma set_map_entry:
  "e \<in> set (AList.map_entry k f xs) \<Longrightarrow> e \<in> set xs \<or> (\<exists>x. (k, x) \<in> set xs \<and> e = (k, f x))"
  by (induction xs) (auto split: if_splits)

lemma wf_map_entry_update:
  assumes "wf_graph g" "v \<in> set (nodes g)"
  shows "wf_graph (AList.map_entry u (AList.update v w) g)"
  unfolding wf_graph_alt nodes_map_entry
proof (intro conjI ballI)
  from assms(1) show "distinct (nodes g)" by (simp add: wf_graph_alt)
next
  fix e assume "e \<in> set (AList.map_entry u (AList.update v w) g)"
  then consider "e \<in> set g" | x where "(u, x) \<in> set g" "e = (u, AList.update v w x)"
    using set_map_entry by fastforce
  then have "distinct (map fst (snd e)) \<and> fst ` set (snd e) \<subseteq> set (nodes g)"
  proof cases
    case 1
    with assms(1) show ?thesis by (simp add: wf_graph_alt)
  next
    case 2
    from assms(1) 2(1) have "distinct (map fst (snd (u, x))) \<and> fst ` set (snd (u, x)) \<subseteq> set (nodes g)"
      unfolding wf_graph_alt by blast
    then have "distinct (map fst x)" "fst ` set x \<subseteq> set (nodes g)" by simp_all
    with 2(2) assms(2) show ?thesis by (simp add: distinct_update dom_update)
  qed
  then show "distinct (map fst (snd e))" "fst ` set (snd e) \<subseteq> set (nodes g)" by simp_all
qed

lemma nodes_add_node: "set (nodes (add_node u g)) = insert u (set (nodes g))"
  by (auto simp: add_node_def nodes_def)

lemma wf_add_edge: "wf_graph g \<Longrightarrow> wf_graph (add_edge u v w g)"
  unfolding add_edge_def
  by (intro wf_map_entry_update wf_add_node) (simp_all add: nodes_add_node)

lemma wf_load_rows: "wf_graph (load_rows rs)"
proof (induction rs rule: rev_induct)
  case Nil
  show ?case by (simp add: load_rows_def wf_graph_def nodes_def)
next
  case (snoc r rs)
  then show ?case by (simp add: load_rows_snoc wf_add_edge)
qed

end
